theory Spec2Isabelle
  imports Main "HOL-Library.Word"
begin

unbundle bit_operations_syntax

section \<open>The numeric primitives of common.h\<close>

text \<open>
  A \<open>float\<close> of the source is modelled by its IEEE-754 binary32 bit pattern, a
  \<open>32 word\<close>. The helper \<open>as<U>(t)\<close> of the source (a union overlay between types of
  equal size) keeps the bit pattern and is therefore the identity of the model.
  \<open>uint32_t\<close> and \<open>unsigned\<close> are \<open>32 word\<close> as well: \<open>+\<close>, \<open>-\<close>, \<open>*\<close> wrap around.
\<close>

type_synonym float = "32 word"
type_synonym uint32_t = "32 word"

subsection \<open>min, max, clamp\<close>

text \<open>
  \<^verbatim>\<open>template <typename T> T min(T a, T b) { return a < b ? a : b; }\<close>
  \<^verbatim>\<open>template <typename T> T max(T a, T b) { return a > b ? a : b; }\<close>
  \<^verbatim>\<open>template <typename T> T clamp(T a, T b, T c) { return min(c, max(b, a)); }\<close>
\<close>

definition min_T :: "'a::linorder \<Rightarrow> 'a \<Rightarrow> 'a" where
  "min_T a b = (if a < b then a else b)"

definition max_T :: "'a::linorder \<Rightarrow> 'a \<Rightarrow> 'a" where
  "max_T a b = (if a > b then a else b)"

definition clamp :: "'a::linorder \<Rightarrow> 'a \<Rightarrow> 'a \<Rightarrow> 'a" where
  "clamp a b c = min_T c (max_T b a)"

subsection \<open>safe_rcp\<close>

text \<open>
  \<^verbatim>\<open>return x != 0 ? 1.0f / x : copysign(as<float>(0x7f800000u), x);\<close>

  The comparison \<open>x != 0\<close> of a float with zero is false exactly for the two zeros
  \<open>+0.0\<close> and \<open>-0.0\<close>, that is when all bits but the sign bit are clear (it is true
  for a NaN). \<open>copysign(m, s)\<close> is \<open>m\<close> with the sign bit of \<open>s\<close>. The division of
  two floats is an operation of the hardware, not of this file: \<open>safe_rcp\<close> takes
  it as its first argument.
\<close>

definition float_ne_zero :: "float \<Rightarrow> bool" where
  "float_ne_zero x = (x AND 0x7FFFFFFF \<noteq> 0)"

definition copysign :: "float \<Rightarrow> float \<Rightarrow> float" where
  "copysign m s = (m AND 0x7FFFFFFF) OR (s AND 0x80000000)"

definition float_one :: float where
  "float_one = 0x3F800000"

definition safe_rcp :: "(float \<Rightarrow> float \<Rightarrow> float) \<Rightarrow> float \<Rightarrow> float" where
  "safe_rcp fdiv x = (if float_ne_zero x then fdiv float_one x else copysign 0x7F800000 x)"

subsection \<open>prodsign\<close>

text \<open>
  \<^verbatim>\<open>return as<float>(as<uint32_t>(x) ^ (as<uint32_t>(y) & 0x80000000));\<close>
\<close>

definition prodsign :: "float \<Rightarrow> float \<Rightarrow> float" where
  "prodsign x y = x XOR (y AND 0x80000000)"

subsection \<open>Ordered floats\<close>

text \<open>
  \<^verbatim>\<open>auto u = as<uint32_t>(f);
  auto mask = -(int)(u >> 31u) | 0x80000000u;
  return u ^ mask;\<close>

  \<open>u >> 31\<close> is 0 or 1; its negation as an \<open>int\<close>, converted back to unsigned by the
  \<open>|\<close> with an unsigned constant, is the negation of the 32-bit word.
\<close>

definition float_to_ordered :: "float \<Rightarrow> uint32_t" where
  "float_to_ordered f =
     (let u = f;
          mask = (- (drop_bit 31 u)) OR 0x80000000
      in u XOR mask)"

text \<open>
  \<^verbatim>\<open>auto mask = ((u >> 31u) - 1u) | 0x80000000u;
  return as<float>(u ^ mask);\<close>
\<close>

definition ordered_to_float :: "uint32_t \<Rightarrow> float" where
  "ordered_to_float u =
     (let mask = (drop_bit 31 u - 1) OR 0x80000000
      in u XOR mask)"

subsection \<open>The values of floats and their comparison\<close>

text \<open>
  The operators \<open><\<close> and \<open>!=\<close> on floats are those of the language, IEEE-754
  comparison. A binary32 pattern has a sign (bit 31), an exponent field (bits 23 to
  30) and a fraction field (bits 0 to 22). With exponent field \<open>e\<close> and fraction \<open>f\<close>,
  a pattern denotes \<open>\<plusminus> f * 2^(-149)\<close> when \<open>e = 0\<close> (the zeros and the subnormals) and
  \<open>\<plusminus> (2^23 + f) * 2^(e - 150)\<close> when \<open>0 < e < 255\<close>; \<open>e = 255\<close> is an infinity when
  \<open>f = 0\<close> and a NaN otherwise. \<open>float_val\<close> is the value denoted, scaled by \<open>2^149\<close>,
  an integer; the same formula puts the infinities beyond all finite values. A
  comparison with a NaN is false; otherwise \<open>a < b\<close> compares the values, and the two
  zeros are equal.
\<close>

definition float_sign :: "float \<Rightarrow> bool" where
  "float_sign x = bit x 31"

definition float_exp :: "float \<Rightarrow> nat" where
  "float_exp x = unat (take_bit 8 (drop_bit 23 x))"

definition float_frac :: "float \<Rightarrow> nat" where
  "float_frac x = unat (take_bit 23 x)"

definition float_is_nan :: "float \<Rightarrow> bool" where
  "float_is_nan x = (float_exp x = 255 \<and> float_frac x \<noteq> 0)"

definition float_finite :: "float \<Rightarrow> bool" where
  "float_finite x = (float_exp x \<noteq> 255)"

definition float_mag :: "float \<Rightarrow> nat" where
  "float_mag x =
     (if float_exp x = 0 then float_frac x
      else (2 ^ 23 + float_frac x) * 2 ^ (float_exp x - 1))"

definition float_val :: "float \<Rightarrow> int" where
  "float_val x = (if float_sign x then - int (float_mag x) else int (float_mag x))"

definition float_lt :: "float \<Rightarrow> float \<Rightarrow> bool" where
  "float_lt a b = (\<not> float_is_nan a \<and> \<not> float_is_nan b \<and> float_val a < float_val b)"

text \<open>The low 31 bits of a pattern, exponent and fraction together.\<close>

definition float_low :: "float \<Rightarrow> nat" where
  "float_low x = unat x mod 2 ^ 31"

subsection \<open>Log2 and ilog2\<close>

text \<open>
  \<^verbatim>\<open>template <size_t N, size_t I = 0> struct Log2 { enum { Value = Log2<N / 2, I + 1>::Value }; };\<close>
  \<^verbatim>\<open>template <size_t I> struct Log2<1, I> { enum { Value = I }; };\<close>

  The specialisation for \<open>N = 1\<close> ends the recursion. \<open>Log2<0>\<close> instantiates
  \<open>Log2<0, I + 1>\<close> for ever and has no value: \<open>None\<close>.
\<close>

fun Log2 :: "nat \<Rightarrow> nat \<Rightarrow> nat option" where
  "Log2 N I = (if N = 1 then Some I else if N = 0 then None else Log2 (N div 2) (I + 1))"

declare Log2.simps [simp del]

text \<open>
  \<^verbatim>\<open>template <typename T> int ilog2(T t) {
      auto a = 0;
      auto b = sizeof(T) * 8;
      auto all = T(-1);
      for (int i = 0; i < Log2<sizeof(T) * 8>::Value; i++) {
          auto m = (a + b) / 2;
          T mask = all << T(m);
          if (t & mask) a = m + 1;
          else          b = m;
      }
      return a;
  }\<close>

  \<open>T\<close> is an unsigned type of \<open>LENGTH('a)\<close> bits. The first argument of \<open>ilog2_loop\<close>
  counts the iterations that remain. \<open>a\<close>, \<open>b\<close> and \<open>m\<close> never exceed the width, so
  they are natural numbers here. A shift by the width of the type or more is undefined
  in the source: the model returns \<open>None\<close> there.
\<close>

fun ilog2_loop :: "nat \<Rightarrow> 'a::len word \<Rightarrow> nat \<Rightarrow> nat \<Rightarrow> nat option" where
  "ilog2_loop 0 t a b = Some a"
| "ilog2_loop (Suc n) t a b =
     (let m = (a + b) div 2 in
      if LENGTH('a) \<le> m then None
      else
        let mask = push_bit m (- 1 :: 'a word) in
        if t AND mask \<noteq> 0 then ilog2_loop n t (m + 1) b else ilog2_loop n t a m)"

definition ilog2 :: "'a::len word \<Rightarrow> nat option" where
  "ilog2 t = (case Log2 (LENGTH('a)) 0 of None \<Rightarrow> None
              | Some k \<Rightarrow> ilog2_loop k t 0 (LENGTH('a)))"

subsection \<open>icbrt\<close>

text \<open>
  \<^verbatim>\<open>int icbrt(int x) {
      unsigned y = 0;
      for (int s = 30; s >= 0; s = s - 3) {
          y = 2 * y;
          const unsigned b = (3 * y * (y + 1) + 1) << s;
          if (x >= b) {
              x = x - b;
              y = y + 1;
          }
      }
      return y;
  }\<close>

  \<open>y\<close> and \<open>b\<close> are \<open>unsigned\<close>, 32-bit words whose arithmetic wraps around. \<open>x\<close> is an
  \<open>int\<close>, but the comparison \<open>x >= b\<close> and the difference \<open>x - b\<close> convert it to
  \<open>unsigned\<close> first: the loop works on the bit pattern of \<open>x\<close> as a 32-bit word. The
  conversion of the argument is \<open>word_of_int\<close>, and the conversion of the result \<open>y\<close>
  to the return type \<open>int\<close> is \<open>sint\<close>.
\<close>

function icbrt_loop :: "int \<Rightarrow> 32 word \<Rightarrow> 32 word \<Rightarrow> 32 word" where
  "icbrt_loop s x y =
     (if 0 \<le> s then
        let y = 2 * y;
            b = push_bit (nat s) (3 * y * (y + 1) + 1)
        in if b \<le> x then icbrt_loop (s - 3) (x - b) (y + 1)
           else icbrt_loop (s - 3) x y
      else y)"
  by pat_completeness auto
termination
  by (relation "measure (\<lambda>(s, x, y). nat (s + 3))") auto

declare icbrt_loop.simps [simp del]

definition icbrt :: "int \<Rightarrow> int" where
  "icbrt x = sint (icbrt_loop 30 (word_of_int x) 0)"

section \<open>Properties\<close>

subsection \<open>Bits of the sign mask and of the magnitude mask\<close>

lemma bit_sign_int: "bit (0x80000000 :: int) n = (n = 31)"
proof -
  have "bit ((2 :: int) ^ 31) n = (n = 31)"
    by (simp only: bit_exp_iff) auto
  then show ?thesis by simp
qed

lemma bit_low_int: "bit (0x7FFFFFFF :: int) n = (n < 31)"
proof -
  have "bit (mask 31 :: int) n = (n < 31)"
    by (simp only: bit_mask_iff) auto
  then show ?thesis by (simp add: mask_eq_exp_minus_1)
qed

lemma bit_sign_word: "bit (0x80000000 :: 32 word) n = (n = 31)"
  by (auto simp: bit_sign_int)

lemma drop_bit_31: "drop_bit 31 (u :: 32 word) = (if bit u 31 then 1 else 0)"
proof (rule bit_word_eqI)
  fix n assume "n < LENGTH(32)"
  have "bit u (31 + n) \<Longrightarrow> n = 0"
    using bit_imp_le_length [of u "31 + n"] by simp
  then show "bit (drop_bit 31 u) n = bit (if bit u 31 then 1 else 0 :: 32 word) n"
    by (auto simp: bit_drop_bit_eq bit_1_iff)
qed

lemma float_ne_zero_iff: "float_ne_zero x = (x \<noteq> 0 \<and> x \<noteq> 0x80000000)"
proof -
  have "(x AND 0x7FFFFFFF = 0) = (x = 0 \<or> x = 0x80000000)" (is "?l = ?r")
  proof
    assume l: ?l
    have low: "\<not> bit x n" if "n < 31" for n
    proof -
      have "\<not> bit (x AND 0x7FFFFFFF) n" by (simp only: l) simp
      with that show ?thesis by (simp add: bit_and_iff bit_low_int)
    qed
    have top: "n = 31" if "bit x n" for n
      using low [of n] bit_imp_le_length [OF that] that by (cases "n < 31") auto
    show ?r
    proof (cases "bit x 31")
      case True
      have "x = 0x80000000"
      proof (rule bit_word_eqI)
        fix n
        have "bit x n = (n = 31)"
          using True top [of n] by blast
        then show "bit x n = bit (0x80000000 :: 32 word) n"
          by (simp only: bit_sign_word)
      qed
      then show ?thesis ..
    next
      case False
      have "\<not> bit x n" for n
        using False top [of n] by blast
      then have "x = 0"
        by (simp add: bit_eq_iff)
      then show ?thesis ..
    qed
  next
    assume ?r then show ?l by auto
  qed
  then show ?thesis by (simp add: float_ne_zero_def)
qed

lemma float_to_ordered_cases:
  "float_to_ordered u = (if bit u 31 then NOT u else u XOR 0x80000000)"
  by (simp add: float_to_ordered_def Let_def drop_bit_31)

lemma ordered_to_float_cases:
  "ordered_to_float u = (if bit u 31 then u XOR 0x80000000 else NOT u)"
  by (simp add: ordered_to_float_def Let_def drop_bit_31)

lemma xor_sign_twice: "(u XOR 0x80000000) XOR 0x80000000 = (u :: 32 word)"
  by (simp add: xor.assoc)

lemma decode_encode: "ordered_to_float (float_to_ordered u) = u"
  by (simp add: float_to_ordered_cases ordered_to_float_cases bit_xor_iff bit_not_iff
      bit_sign_int xor_sign_twice)

lemma encode_decode: "float_to_ordered (ordered_to_float u) = u"
  by (simp add: float_to_ordered_cases ordered_to_float_cases bit_xor_iff bit_not_iff
      bit_sign_int xor_sign_twice)

subsection \<open>clamp\<close>

text \<open>
  C8. For every totally ordered type and all \<open>v\<close>, \<open>lo\<close>, \<open>hi\<close> with \<open>lo \<le> hi\<close>,
  clamping is idempotent: \<open>clamp(clamp(v, lo, hi), lo, hi) = clamp(v, lo, hi)\<close>.
\<close>

theorem clamp_idempotent:
  fixes v lo hi :: "'a::linorder"
  assumes "lo \<le> hi"
  shows "clamp (clamp v lo hi) lo hi = clamp v lo hi"
  using assms by (auto simp: clamp_def min_T_def max_T_def)

theorem clamp_idempotent_witness:
  "(2::int) \<le> 5 \<and> clamp (clamp (9::int) 2 5) 2 5 = clamp 9 2 5
     \<and> clamp (9::int) 2 5 = 5"
proof -
  have h: "(2::int) \<le> 5" by simp
  show ?thesis
    using h clamp_idempotent [OF h, of 9]
    by (simp add: clamp_def min_T_def max_T_def)
qed

subsection \<open>safe_rcp\<close>

text \<open>
  C6. For every float \<open>x\<close> that is not a zero, \<open>safe_rcp(x)\<close> returns \<open>1.0f / x\<close>, whatever
  the division of the platform is; so \<open>safe_rcp(2.0)\<close> is \<open>0.5\<close> as soon as the division
  gives \<open>1.0f / 2.0f = 0.5f\<close> (bit patterns \<open>0x3F800000\<close>, \<open>0x40000000\<close>,
  \<open>0x3F000000\<close>). For a zero \<open>x\<close> the result is the infinity \<open>0x7F800000\<close> with the sign
  bit of \<open>x\<close>: positive infinity for \<open>+0.0\<close>, negative infinity for \<open>-0.0\<close>; it is not
  a NaN and does not depend on the division, which is not called.
\<close>

theorem safe_rcp_spec:
  "(float_ne_zero x \<longrightarrow> safe_rcp fdiv x = fdiv 0x3F800000 x)
   \<and> (fdiv 0x3F800000 0x40000000 = 0x3F000000 \<longrightarrow> safe_rcp fdiv 0x40000000 = 0x3F000000)
   \<and> (\<not> float_ne_zero x \<longrightarrow>
        (x = 0 \<or> x = 0x80000000)
        \<and> safe_rcp fdiv x = 0x7F800000 OR (x AND 0x80000000)
        \<and> \<not> float_is_nan (safe_rcp fdiv x)
        \<and> safe_rcp fdiv x = safe_rcp fdiv' x)
   \<and> safe_rcp fdiv 0 = 0x7F800000
   \<and> safe_rcp fdiv 0x80000000 = 0xFF800000"
proof -
  have zero: "safe_rcp fdiv 0 = 0x7F800000" and mzero: "safe_rcp fdiv 0x80000000 = 0xFF800000"
    by (simp_all add: safe_rcp_def float_ne_zero_def copysign_def)
  have two: "float_ne_zero 0x40000000"
    by (simp add: float_ne_zero_def)
  have z: "safe_rcp fdiv x = 0x7F800000 OR (x AND 0x80000000)
           \<and> \<not> float_is_nan (safe_rcp fdiv x) \<and> safe_rcp fdiv x = safe_rcp fdiv' x"
    if "x = 0 \<or> x = 0x80000000"
    using that
    by (auto simp: safe_rcp_def float_ne_zero_def copysign_def float_is_nan_def float_exp_def
        float_frac_def)
  show ?thesis
    using zero mzero two z
    by (auto simp: safe_rcp_def float_one_def float_ne_zero_iff)
qed

theorem safe_rcp_spec_witness:
  "float_ne_zero 0x40000000
   \<and> safe_rcp (\<lambda>a b. 0x3F000000) 0x40000000 = 0x3F000000
   \<and> \<not> float_ne_zero 0x80000000
   \<and> safe_rcp (\<lambda>a b. 0x3F000000) 0x80000000 = 0xFF800000
   \<and> \<not> float_is_nan (safe_rcp (\<lambda>a b. 0x3F000000) 0x80000000)"
proof -
  have nz: "float_ne_zero 0x40000000" and z: "\<not> float_ne_zero 0x80000000"
    by (simp_all add: float_ne_zero_def)
  show ?thesis
    using nz z
      safe_rcp_spec [of "0x40000000" "\<lambda>a b. 0x3F000000" "\<lambda>a b. 0"]
      safe_rcp_spec [of "0x80000000" "\<lambda>a b. 0x3F000000" "\<lambda>a b. 0"]
    by (simp add: float_is_nan_def float_exp_def float_frac_def)
qed

subsection \<open>prodsign\<close>

text \<open>
  C7. For all floats \<open>x\<close> and \<open>y\<close>, \<open>prodsign(x, y)\<close> has the magnitude bits (bits 0 to
  30) of \<open>x\<close>, and its sign bit is the exclusive or of the sign bits of \<open>x\<close> and \<open>y\<close>.
  \<open>prodsign(3.0, -2.0) = -3.0\<close>, \<open>prodsign(-5.0, -1.0) = 5.0\<close>, and
  \<open>prodsign(4.0, 0.0)\<close> is \<open>4.0\<close> with a clear sign bit. (\<open>3.0 = 0x40400000\<close>,
  \<open>-2.0 = 0xC0000000\<close>, \<open>-3.0 = 0xC0400000\<close>, \<open>-5.0 = 0xC0A00000\<close>,
  \<open>-1.0 = 0xBF800000\<close>, \<open>5.0 = 0x40A00000\<close>, \<open>4.0 = 0x40800000\<close>.)
\<close>

theorem prodsign_spec:
  "prodsign x y AND 0x7FFFFFFF = x AND 0x7FFFFFFF
   \<and> bit (prodsign x y) 31 = (bit x 31 \<noteq> bit y 31)
   \<and> prodsign 0x40400000 0xC0000000 = 0xC0400000
   \<and> prodsign 0xC0A00000 0xBF800000 = 0x40A00000
   \<and> prodsign 0x40800000 0 = 0x40800000
   \<and> \<not> bit (prodsign 0x40800000 0) 31"
proof -
  have mag: "prodsign x y AND 0x7FFFFFFF = x AND 0x7FFFFFFF"
    unfolding prodsign_def
    by (rule bit_word_eqI) (auto simp: bit_and_iff bit_xor_iff bit_sign_int bit_low_int)
  have sgn: "bit (prodsign x y) 31 = (bit x 31 \<noteq> bit y 31)"
    unfolding prodsign_def by (auto simp: bit_and_iff bit_xor_iff bit_sign_int)
  have ex: "prodsign 0x40400000 0xC0000000 = 0xC0400000"
    "prodsign 0xC0A00000 0xBF800000 = 0x40A00000"
    "prodsign 0x40800000 0 = 0x40800000"
    "\<not> bit (prodsign 0x40800000 0) 31"
    by (simp_all add: prodsign_def)
  from mag sgn ex show ?thesis by blast
qed

subsection \<open>Ordered floats: round trips\<close>

text \<open>
  C3. For every float \<open>x\<close>, finite or not, decoding the key of \<open>x\<close> gives back the
  bit pattern of \<open>x\<close>: \<open>ordered_to_float(float_to_ordered(x)) = x\<close>. This covers the
  zeros \<open>0x00000000\<close> and \<open>0x80000000\<close>, the subnormals, and the smallest and largest
  normal values of both signs.
\<close>

theorem ordered_roundtrip:
  "ordered_to_float (float_to_ordered x) = x"
  by (rule decode_encode)

text \<open>
  C10. For every 32-bit value \<open>u\<close>, \<open>float_to_ordered(ordered_to_float(u)) = u\<close>, and
  \<open>float_to_ordered\<close> is a bijection on the 32-bit patterns.
\<close>

theorem float_to_ordered_bij:
  "float_to_ordered (ordered_to_float u) = u \<and> bij float_to_ordered"
proof
  show "float_to_ordered (ordered_to_float u) = u"
    by (rule encode_decode)
  show "bij float_to_ordered"
    by (rule bij_betw_byWitness [where f' = ordered_to_float])
      (auto simp: decode_encode encode_decode)
qed

subsection \<open>ilog2 and Log2\<close>

lemma mask_test_word:
  fixes t :: "'a::len word"
  shows "(t AND push_bit m (- 1) = 0) = (take_bit m t = t)"
  by (auto simp: bit_eq_iff bit_and_iff bit_push_bit_iff bit_take_bit_iff bit_not_iff bit_mask_iff
      dest: bit_imp_le_length)

lemma take_bit_self_unat:
  fixes t :: "'a::len word"
  shows "(take_bit m t = t) = (unat t < 2 ^ m)"
proof -
  have "(take_bit m t = t) = (unat (take_bit m t) = unat t)"
    by (simp only: word_unat_eq_iff)
  also have "\<dots> = (take_bit m (unat t) = unat t)"
    by (simp only: unsigned_take_bit_eq)
  also have "\<dots> = (unat t < 2 ^ m)"
    by (rule take_bit_nat_eq_self_iff)
  finally show ?thesis .
qed

lemma mask_test:
  fixes t :: "'a::len word"
  shows "(t AND push_bit m (- 1) \<noteq> 0) = (2 ^ m \<le> unat t)"
  using take_bit_self_unat [of m t] mask_test_word [of t m] by auto

lemma ilog2_loop_step:
  fixes t :: "'a::len word"
  assumes "(a + b) div 2 < LENGTH('a)"
  shows "ilog2_loop (Suc n) t a b =
     (if 2 ^ ((a + b) div 2) \<le> unat t then ilog2_loop n t ((a + b) div 2 + 1) b
      else ilog2_loop n t a ((a + b) div 2))"
  using assms by (simp add: Let_def mask_test del: push_bit_minus_one_eq_not_mask)

lemma Log2_pow2: "Log2 (2 ^ k) I = Some (I + k)"
proof (induction k arbitrary: I)
  case 0
  show ?case by (simp add: Log2.simps)
next
  case (Suc k)
  have "Log2 (2 ^ Suc k) I = Log2 (2 ^ k) (I + 1)"
    by (subst Log2.simps) simp
  then show ?case by (simp add: Suc.IH)
qed

lemma Log2_pos: "0 < N \<Longrightarrow> \<exists>k. Log2 N I = Some k"
proof (induction N I rule: Log2.induct)
  case (1 N I)
  show ?case
  proof (cases "N = 1")
    case True
    then show ?thesis by (simp add: Log2.simps)
  next
    case False
    with 1 have "0 < N div 2" by simp
    with 1 False obtain k where "Log2 (N div 2) (I + 1) = Some k" by auto
    with False 1 show ?thesis by (subst Log2.simps) simp
  qed
qed

lemma ilog2_loop_zero:
  "b \<le> LENGTH('a) \<Longrightarrow> ilog2_loop n (0 :: 'a::len word) 0 b = Some 0"
proof (induction n arbitrary: b)
  case 0
  show ?case by simp
next
  case (Suc n)
  have "b div 2 < LENGTH('a)" using Suc.prems by (cases "b = 0") auto
  then show ?case using Suc.IH [of "b div 2"] by (simp add: ilog2_loop_step)
qed

text \<open>The binary search once at most \<open>2 ^ i\<close> candidates are left for \<open>i\<close> iterations.\<close>

lemma ilog2_loop_converges:
  fixes t :: "'a::len word"
  assumes "a = 0 \<or> 2 ^ (a - 1) \<le> unat t" and "unat t < 2 ^ b" and "b \<le> LENGTH('a)"
    and "a \<le> b" and "b - a < 2 ^ i" and "b = LENGTH('a) \<longrightarrow> a + 2 ^ i = b + 1"
  shows "\<exists>r. ilog2_loop i t a b = Some r \<and> (r = 0 \<or> 2 ^ (r - 1) \<le> unat t) \<and> unat t < 2 ^ r"
  using assms
proof (induction i arbitrary: a b)
  case 0
  then have "a = b" by simp
  with 0 show ?case by auto
next
  case (Suc i)
  define m where "m = (a + b) div 2"
  define p :: nat where "p = 2 ^ i"
  have p: "0 < p" "(2::nat) ^ Suc i = 2 * p" by (simp_all add: p_def)
  have ab: "a \<le> b" "b - a < 2 * p" "b = LENGTH('a) \<longrightarrow> a + 2 * p = b + 1" "b \<le> LENGTH('a)"
    using Suc.prems p by simp_all
  have m2: "2 * m \<le> a + b" "a + b < 2 * m + 2"
    unfolding m_def by simp_all
  have m: "m < LENGTH('a)" "a \<le> m" "m \<le> b"
    using ab p m2 by linarith+
  have step: "ilog2_loop (Suc i) t a b =
     (if 2 ^ m \<le> unat t then ilog2_loop i t (m + 1) b else ilog2_loop i t a m)"
    using m(1) unfolding m_def by (rule ilog2_loop_step)
  show ?case
  proof (cases "2 ^ m \<le> unat t")
    case True
    have lt: "m < b"
    proof (rule ccontr)
      assume "\<not> m < b"
      then have "b \<le> m" by simp
      then have "(2::nat) ^ b \<le> 2 ^ m" by (rule power_increasing) simp
      with True Suc.prems(2) show False by simp
    qed
    have "\<exists>r. ilog2_loop i t (m + 1) b = Some r \<and> (r = 0 \<or> 2 ^ (r - 1) \<le> unat t) \<and> unat t < 2 ^ r"
    proof (rule Suc.IH)
      show "m + 1 = 0 \<or> 2 ^ (m + 1 - 1) \<le> unat t" using True by simp
      show "unat t < 2 ^ b" by fact
      show "b \<le> LENGTH('a)" by fact
      show "m + 1 \<le> b" using lt by simp
      show "b - (m + 1) < 2 ^ i" using ab lt m2 unfolding p_def [symmetric] by linarith
      show "b = LENGTH('a) \<longrightarrow> m + 1 + 2 ^ i = b + 1"
        using ab lt m2 unfolding p_def [symmetric] by linarith
    qed
    with step True show ?thesis by simp
  next
    case False
    have "\<exists>r. ilog2_loop i t a m = Some r \<and> (r = 0 \<or> 2 ^ (r - 1) \<le> unat t) \<and> unat t < 2 ^ r"
    proof (rule Suc.IH)
      show "a = 0 \<or> 2 ^ (a - 1) \<le> unat t" by fact
      show "unat t < 2 ^ m" using False by simp
      show "m \<le> LENGTH('a)" using m by simp
      show "a \<le> m" by fact
      show "m - a < 2 ^ i" using ab m2 unfolding p_def [symmetric] by linarith
      show "m = LENGTH('a) \<longrightarrow> a + 2 ^ i = m + 1" using m by simp
    qed
    with step False show ?thesis by simp
  qed
qed


lemma ilog2_loop_top:
  fixes t :: "'a::len word"
  assumes "unat t < 2 ^ (2 ^ j)" and "2 ^ j \<le> LENGTH('a)"
  shows "\<exists>r. ilog2_loop j t 0 (2 ^ j) = Some r \<and>
           (if unat t \<le> 1 then r = 0 else 2 ^ (r - 1) \<le> unat t \<and> unat t < 2 ^ r)"
  using assms
proof (induction j)
  case 0
  then show ?case by simp
next
  case (Suc j)
  define m :: nat where "m = 2 ^ j"
  have "0 < m" by (simp add: m_def)
  moreover have "2 * m \<le> LENGTH('a)" using Suc.prems(2) by (simp add: m_def)
  ultimately have "m < LENGTH('a)" by linarith
  have m: "(0 + 2 ^ Suc j) div 2 = m" "0 < m" "m < LENGTH('a)" "(2::nat) ^ Suc j = 2 * m"
    using \<open>0 < m\<close> \<open>m < LENGTH('a)\<close> by (simp_all add: m_def)
  have step: "ilog2_loop (Suc j) t 0 (2 ^ Suc j) =
     (if 2 ^ m \<le> unat t then ilog2_loop j t (m + 1) (2 ^ Suc j) else ilog2_loop j t 0 m)"
    using ilog2_loop_step [of 0 "2 ^ Suc j" j t] m by (simp only: m(1))
  show ?case
  proof (cases "2 ^ m \<le> unat t")
    case True
    have "(2::nat) ^ 1 \<le> 2 ^ m" using m(2) by (intro power_increasing) simp_all
    with True have big: "\<not> unat t \<le> 1" by simp
    have "\<exists>r. ilog2_loop j t (m + 1) (2 ^ Suc j) = Some r
            \<and> (r = 0 \<or> 2 ^ (r - 1) \<le> unat t) \<and> unat t < 2 ^ r"
    proof (rule ilog2_loop_converges)
      show "m + 1 = 0 \<or> 2 ^ (m + 1 - 1) \<le> unat t" using True by simp
      show "unat t < 2 ^ 2 ^ Suc j" by fact
      show "2 ^ Suc j \<le> LENGTH('a)" by fact
      show "m + 1 \<le> 2 ^ Suc j" using m by simp
      show "2 ^ Suc j - (m + 1) < 2 ^ j" using m by (simp add: m_def)
      show "2 ^ Suc j = LENGTH('a) \<longrightarrow> m + 1 + 2 ^ j = 2 ^ Suc j + 1" by (simp add: m_def)
    qed
    then obtain r where r: "ilog2_loop j t (m + 1) (2 ^ Suc j) = Some r"
      "r = 0 \<or> 2 ^ (r - 1) \<le> unat t" "unat t < 2 ^ r" by blast
    from r(3) big have "r \<noteq> 0" by (cases r) auto
    with r big step True show ?thesis by simp
  next
    case False
    then have "unat t < 2 ^ 2 ^ j" by (simp add: m_def)
    moreover have "2 ^ j \<le> LENGTH('a)" using m by (simp add: m_def)
    ultimately show ?thesis using Suc.IH step False by (simp add: m_def)
  qed
qed

lemma unat_pow2:
  assumes "k < LENGTH('a)"
  shows "unat (2 ^ k :: 'a::len word) = 2 ^ k"
proof -
  have "(2::nat) ^ k < 2 ^ LENGTH('a)"
    using assms by (intro power_strict_increasing) simp_all
  moreover have "unat (of_nat (2 ^ k) :: 'a word) = 2 ^ k mod 2 ^ LENGTH('a)"
    by (simp only: unat_of_nat)
  ultimately show ?thesis by simp
qed

text \<open>What \<open>ilog2\<close> computes on a width that is a power of two.\<close>

lemma ilog2_bitlen:
  fixes t :: "'a::len word"
  assumes "LENGTH('a) = 2 ^ k"
  shows "\<exists>r. ilog2 t = Some r \<and>
           (if unat t \<le> 1 then r = 0 else 2 ^ (r - 1) \<le> unat t \<and> unat t < 2 ^ r)"
proof -
  have "unat t < 2 ^ LENGTH('a)" by (rule unsigned_less)
  then have "unat t < 2 ^ (2 ^ k)" by (simp only: assms)
  moreover have "2 ^ k \<le> LENGTH('a)" by (simp only: assms)
  ultimately have "\<exists>r. ilog2_loop k t 0 (2 ^ k) = Some r \<and>
           (if unat t \<le> 1 then r = 0 else 2 ^ (r - 1) \<le> unat t \<and> unat t < 2 ^ r)"
    by (rule ilog2_loop_top)
  moreover have "ilog2 t = ilog2_loop k t 0 (2 ^ k)"
    using Log2_pow2 [of k 0] by (simp add: ilog2_def assms)
  ultimately show ?thesis by simp
qed

lemma ilog2_zero: "ilog2 (0 :: 'a::len word) = Some 0"
proof -
  obtain k where "Log2 (LENGTH('a)) 0 = Some k"
    using Log2_pos [of "LENGTH('a)" 0] by auto
  then show ?thesis by (simp add: ilog2_def ilog2_loop_zero)
qed

lemma ilog2_pow2:
  fixes t :: "'a::len word"
  assumes "LENGTH('a) = 2 ^ w" and "k < LENGTH('a)"
  shows "ilog2 (2 ^ k :: 'a word) = Some (if k = 0 then 0 else k + 1)"
proof -
  have u: "unat (2 ^ k :: 'a word) = 2 ^ k"
    using assms(2) by (rule unat_pow2)
  obtain r where r: "ilog2 (2 ^ k :: 'a word) = Some r"
     "if (2::nat) ^ k \<le> 1 then r = 0 else (2::nat) ^ (r - 1) \<le> 2 ^ k \<and> (2::nat) ^ k < 2 ^ r"
    using ilog2_bitlen [OF assms(1), of "2 ^ k"] unfolding u by blast
  show ?thesis
  proof (cases "k = 0")
    case True
    with r show ?thesis by simp
  next
    case False
    then have "(2::nat) ^ 1 \<le> 2 ^ k" by (intro power_increasing) simp_all
    then have "\<not> (2::nat) ^ k \<le> 1" by simp
    with r(2) have "r - 1 \<le> k" "k < r" by simp_all
    then have "r = k + 1" by simp
    with r False show ?thesis by simp
  qed
qed

text \<open>
  C9. \<open>ilog2(0)\<close> returns 0 for every width: no masked test succeeds, and the lower
  bound \<open>a\<close> keeps its initial value 0.
\<close>

theorem ilog2_of_zero: "ilog2 (0 :: 'a::len word) = Some 0"
  by (rule ilog2_zero)

text \<open>
  C1, as the code has it. The claim that \<open>ilog2(t)\<close> is the smallest \<open>a\<close> with
  \<open>(1 << a) \<ge> t\<close> fails at every power of two from 2 on: \<open>ilog2(2)\<close> is 2 although
  \<open>(1 << 1) \<ge> 2\<close>, and \<open>ilog2(1024)\<close> is 11 although \<open>(1 << 10) \<ge> 1024\<close>.
\<close>

theorem ilog2_not_smallest:
  "ilog2 (2 :: 32 word) = Some 2 \<and> unat (2 :: 32 word) \<le> 2 ^ 1
   \<and> ilog2 (1024 :: 32 word) = Some 11 \<and> unat (1024 :: 32 word) \<le> 2 ^ 10"
  by code_simp

text \<open>
  C1, amended. For every unsigned \<open>t > 0\<close> of a width that is a power of two,
  \<open>ilog2(t)\<close> returns an \<open>a\<close> with \<open>2 ^ a \<ge> t\<close>, as the comment of the source says:
  \<open>a = 0\<close> for \<open>t = 1\<close>, and for \<open>t \<ge> 2\<close> the smallest \<open>a\<close> with \<open>2 ^ a > t\<close>, the
  number of bits of \<open>t\<close>. On 32 bits, \<open>ilog2(1) = 0\<close>, \<open>ilog2(2) = 2\<close>,
  \<open>ilog2(3) = 2\<close>, \<open>ilog2(1024) = 11\<close> and \<open>ilog2(1025) = 11\<close>.
\<close>

theorem ilog2_spec:
  fixes t :: "'a::len word"
  assumes "LENGTH('a) = 2 ^ k" and "0 < t"
  shows "(\<exists>a. ilog2 t = Some a \<and> unat t \<le> 2 ^ a
            \<and> (if t = 1 then a = 0 else unat t < 2 ^ a \<and> 2 ^ a \<le> 2 * unat t))
         \<and> ilog2 (1 :: 32 word) = Some 0
         \<and> ilog2 (2 :: 32 word) = Some 2
         \<and> ilog2 (3 :: 32 word) = Some 2
         \<and> ilog2 (1024 :: 32 word) = Some 11
         \<and> ilog2 (1025 :: 32 word) = Some 11"
proof -
  obtain r where r: "ilog2 t = Some r"
    "if unat t \<le> 1 then r = 0 else 2 ^ (r - 1) \<le> unat t \<and> unat t < 2 ^ r"
    using ilog2_bitlen [OF assms(1), of t] by blast
  have pos: "0 < unat t" using assms(2) by (simp add: word_less_nat_alt)
  have one: "(t = 1) = (unat t \<le> 1)"
  proof -
    have "(t = 1) = (unat t = unat (1 :: 'a word))" by (simp only: word_unat_eq_iff)
    with pos show ?thesis by auto
  qed
  have "unat t \<le> 2 ^ r \<and> (if t = 1 then r = 0 else unat t < 2 ^ r \<and> 2 ^ r \<le> 2 * unat t)"
  proof (cases "unat t \<le> 1")
    case True
    with r(2) one show ?thesis by simp
  next
    case False
    with r(2) have b: "2 ^ (r - 1) \<le> unat t" "unat t < 2 ^ r" by simp_all
    from b(2) False have "r \<noteq> 0" by (cases r) auto
    then have "(2::nat) ^ r = 2 * 2 ^ (r - 1)" by (cases r) simp_all
    with b False one show ?thesis by simp
  qed
  with r(1) have gen: "\<exists>a. ilog2 t = Some a \<and> unat t \<le> 2 ^ a
            \<and> (if t = 1 then a = 0 else unat t < 2 ^ a \<and> 2 ^ a \<le> 2 * unat t)"
    by blast
  have ex: "ilog2 (1 :: 32 word) = Some 0" "ilog2 (2 :: 32 word) = Some 2"
    "ilog2 (3 :: 32 word) = Some 2" "ilog2 (1024 :: 32 word) = Some 11"
    "ilog2 (1025 :: 32 word) = Some 11"
    by code_simp+
  from gen ex show ?thesis by blast
qed

theorem ilog2_spec_witness:
  "LENGTH(32) = 2 ^ 5 \<and> (0 :: 32 word) < 1025
   \<and> (\<exists>a. ilog2 (1025 :: 32 word) = Some a \<and> unat (1025 :: 32 word) \<le> 2 ^ a
          \<and> unat (1025 :: 32 word) < 2 ^ a \<and> 2 ^ a \<le> 2 * unat (1025 :: 32 word))"
proof -
  have h1: "LENGTH(32) = 2 ^ 5" by simp
  have h2: "(0 :: 32 word) < 1025" by simp
  show ?thesis
    using h1 h2 ilog2_spec [OF h1 h2] by simp
qed

text \<open>
  C2, as the code has it. The claim that \<open>Log2<N>::Value\<close> equals \<open>ilog2(N)\<close> for
  every power of two \<open>N\<close> fails at \<open>N = 2\<close>: \<open>Log2<2>::Value\<close> is 1, \<open>ilog2(2)\<close> is 2.
\<close>

theorem Log2_ilog2_differ:
  "Log2 2 0 = Some 1 \<and> ilog2 (2 :: 32 word) = Some 2"
  by code_simp

text \<open>
  C2, amended. On a width that is a power of two and for every power of two
  \<open>N = 2 ^ k\<close> that the type holds, \<open>Log2<N>::Value\<close> is \<open>k\<close>; \<open>ilog2(N)\<close> is equal
  to it for \<open>N = 1\<close> and is \<open>k + 1\<close>, one more, for every other \<open>N\<close>.
\<close>

theorem Log2_ilog2_pow2:
  assumes "LENGTH('a::len) = 2 ^ w" and "k < LENGTH('a)"
  shows "Log2 (2 ^ k) 0 = Some k
         \<and> ilog2 (2 ^ k :: 'a word) = Some (if k = 0 then 0 else k + 1)"
  using ilog2_pow2 [OF assms] Log2_pow2 [of k 0] by simp

theorem Log2_ilog2_pow2_witness:
  "LENGTH(32) = 2 ^ 5 \<and> 10 < LENGTH(32)
   \<and> Log2 (2 ^ 10) 0 = Some 10 \<and> ilog2 (2 ^ 10 :: 32 word) = Some 11"
proof -
  have h1: "LENGTH(32) = 2 ^ 5" by simp
  have h2: "10 < LENGTH(32)" by simp
  show ?thesis
    using h1 h2 Log2_ilog2_pow2 [OF h1 h2] by simp
qed

subsection \<open>icbrt\<close>

lemma cube_digit_bound:
  fixes Y P :: nat
  assumes "Y < P"
  shows "3 * (2 * Y) * (2 * Y + 1) + 1 < 4 * P ^ 3"
proof -
  obtain Q where P: "P = Suc Q" using assms by (cases P) auto
  with assms have "Y \<le> Q" by simp
  then have "Y ^ 2 \<le> Q ^ 2" by (rule power_mono) simp
  with \<open>Y \<le> Q\<close> have "12 * Y ^ 2 + 6 * Y + 1 \<le> 12 * Q ^ 2 + 6 * Q + 1" by linarith
  moreover have "3 * (2 * Y) * (2 * Y + 1) + 1 = 12 * Y ^ 2 + 6 * Y + 1"
    by (simp add: power2_eq_square algebra_simps)
  moreover have "4 * (Suc Q) ^ 3 = 4 * Q ^ 3 + 12 * Q ^ 2 + 12 * Q + 4"
    by (simp add: power3_eq_cube power2_eq_square algebra_simps)
  ultimately show ?thesis unfolding P by linarith
qed

lemma cube_succ:
  fixes Y :: nat
  shows "(2 * Y + 1) ^ 3 = 8 * Y ^ 3 + (3 * (2 * Y) * (2 * Y + 1) + 1)"
  by (simp add: power3_eq_cube algebra_simps)

lemma unat_of_nat_32: "n < 2 ^ 32 \<Longrightarrow> unat (of_nat n :: 32 word) = n"
  by (simp add: unat_of_nat)

lemma pow8_nat: "(8::nat) ^ j = 2 ^ (3 * j)"
proof -
  have "(2::nat) ^ (3 * j) = (2 ^ 3) ^ j" by (rule power_mult)
  then show ?thesis by simp
qed

lemma pow8_word: "(8::32 word) ^ j = 2 ^ (3 * j)"
proof -
  have "(2::32 word) ^ (3 * j) = (2 ^ 3) ^ j" by (rule power_mult)
  then show ?thesis by simp
qed

lemma icbrt_loop_unfold:
  fixes x y :: "32 word"
  assumes "unat y < 2 ^ k" and "j + k = 10"
  defines "B \<equiv> (3 * (2 * unat y) * (2 * unat y + 1) + 1) * 8 ^ j"
  shows "B < 2 ^ 32"
    and "icbrt_loop (3 * int j) x y =
      (if B \<le> unat x then icbrt_loop (3 * int j - 3) (x - of_nat B) (of_nat (2 * unat y + 1))
       else icbrt_loop (3 * int j - 3) x (of_nat (2 * unat y)))"
proof -
  define Y where "Y = unat y"
  have y: "y = of_nat Y" by (simp add: Y_def)
  have "((2::nat) ^ k) ^ 3 = 2 ^ (3 * k)"
    by (simp only: power_mult [symmetric] mult.commute)
  then have "(8::nat) ^ j * (2 ^ k) ^ 3 = 2 ^ (3 * j + 3 * k)"
    by (simp only: pow8_nat power_add)
  also have "3 * j + 3 * k = 30" using assms(2) by simp
  finally have EP: "(8::nat) ^ j * (2 ^ k) ^ 3 = 2 ^ 30" .
  have "3 * (2 * Y) * (2 * Y + 1) + 1 < 4 * (2 ^ k) ^ 3"
    using assms(1) unfolding Y_def by (rule cube_digit_bound)
  moreover have "0 < (8::nat) ^ j" by simp
  ultimately have "(3 * (2 * Y) * (2 * Y + 1) + 1) * 8 ^ j < 4 * (2 ^ k) ^ 3 * 8 ^ j"
    by (rule mult_less_mono1)
  also have "\<dots> = 4 * (8 ^ j * (2 ^ k) ^ 3)" by simp
  also have "\<dots> = 2 ^ 32" by (simp only: EP) simp
  finally show B: "B < 2 ^ 32" by (simp add: B_def Y_def)
  have b: "push_bit (nat (3 * int j)) (3 * (2 * y) * (2 * y + 1) + 1) = (of_nat B :: 32 word)"
  proof -
    have "(of_nat B :: 32 word) = (3 * (2 * of_nat Y) * (2 * of_nat Y + 1) + 1) * 8 ^ j"
      unfolding B_def Y_def [symmetric]
      by (simp only: of_nat_mult of_nat_add of_nat_numeral of_nat_power of_nat_1)
    moreover have "nat (3 * int j) = 3 * j" by simp
    ultimately show ?thesis
      by (simp only: push_bit_eq_mult pow8_word y)
  qed
  have ub: "unat (of_nat B :: 32 word) = B" using B by (rule unat_of_nat_32)
  have le: "(of_nat B \<le> x) = (B \<le> unat x)"
    by (simp add: word_le_nat_alt ub)
  show "icbrt_loop (3 * int j) x y =
      (if B \<le> unat x then icbrt_loop (3 * int j - 3) (x - of_nat B) (of_nat (2 * unat y + 1))
       else icbrt_loop (3 * int j - 3) x (of_nat (2 * unat y)))"
  proof -
    have y2: "2 * y = of_nat (2 * unat y)"
      "(of_nat (2 * unat y) :: 32 word) + 1 = of_nat (2 * unat y + 1)"
      by simp_all
    have "icbrt_loop (3 * int j) x y =
      (if of_nat B \<le> x then icbrt_loop (3 * int j - 3) (x - of_nat B) (2 * y + 1)
       else icbrt_loop (3 * int j - 3) x (2 * y))"
      by (subst icbrt_loop.simps) (simp only: Let_def b, simp)
    then show ?thesis by (simp only: le y2)
  qed
qed

lemma icbrt_loop_inv:
  fixes x y :: "32 word"
  assumes "s = 3 * int j - 3" and "j + k = 11" and "unat y < 2 ^ k"
    and "unat x + (unat y) ^ 3 * 8 ^ j = x0" and "x0 < (unat y + 1) ^ 3 * 8 ^ j"
  shows "(unat (icbrt_loop s x y)) ^ 3 \<le> x0 \<and> x0 < (unat (icbrt_loop s x y) + 1) ^ 3
         \<and> unat (icbrt_loop s x y) < 2 ^ 11"
  using assms
proof (induction j arbitrary: s k x y)
  case 0
  then have "icbrt_loop s x y = y" by (subst icbrt_loop.simps) simp
  moreover have "k = 11" using 0 by simp
  ultimately show ?case using 0 by auto
next
  case (Suc j)
  define Y where "Y = unat y"
  define X where "X = unat x"
  define C where "C = 3 * (2 * Y) * (2 * Y + 1) + 1"
  define B where "B = C * 8 ^ j"
  have jk: "j + k = 10" using Suc.prems(2) by simp
  have s: "s = 3 * int j" using Suc.prems(1) by simp
  have B: "B < 2 ^ 32"
    using icbrt_loop_unfold(1) [OF Suc.prems(3) jk] by (simp only: B_def C_def Y_def)
  have unf: "icbrt_loop s x y =
      (if B \<le> X then icbrt_loop (3 * int j - 3) (x - of_nat B) (of_nat (2 * Y + 1))
       else icbrt_loop (3 * int j - 3) x (of_nat (2 * Y)))"
    using icbrt_loop_unfold(2) [OF Suc.prems(3) jk, of x] by (simp only: B_def C_def Y_def X_def s)
  have Yk: "Y < 2 ^ k" using Suc.prems(3) by (simp only: Y_def)
  have k10: "k \<le> 10" using jk by simp
  then have "(2::nat) ^ k \<le> 2 ^ 10" by (intro power_increasing) simp_all
  with Yk have Ysmall: "2 * Y + 1 < 2 ^ 32" by simp
  have u1: "unat (of_nat (2 * Y + 1) :: 32 word) = 2 * Y + 1"
    using Ysmall by (rule unat_of_nat_32)
  have u0: "unat (of_nat (2 * Y) :: 32 word) = 2 * Y"
    using Ysmall by (intro unat_of_nat_32) simp
  have inv1: "X + Y ^ 3 * (8 * 8 ^ j) = x0" and inv2: "x0 < (Y + 1) ^ 3 * (8 * 8 ^ j)"
    using Suc.prems(4,5) by (simp_all add: X_def Y_def)
  have cube: "(2 * Y + 1) ^ 3 * 8 ^ j = Y ^ 3 * (8 * 8 ^ j) + B"
    unfolding B_def C_def by (simp only: cube_succ) (simp add: algebra_simps)
  have cube2: "(2 * Y) ^ 3 * 8 ^ j = Y ^ 3 * (8 * 8 ^ j)"
    by (simp add: power3_eq_cube)
  have cube3: "(2 * Y + 1 + 1) ^ 3 * 8 ^ j = (Y + 1) ^ 3 * (8 * 8 ^ j)"
    by (simp add: power3_eq_cube algebra_simps)
  show ?case
  proof (cases "B \<le> X")
    case True
    have ub: "unat (of_nat B :: 32 word) = B" using B by (rule unat_of_nat_32)
    have "(of_nat B :: 32 word) \<le> x" using True by (simp add: word_le_nat_alt ub X_def)
    then have ux: "unat (x - of_nat B) = X - B" by (simp add: unat_sub ub X_def)
    have "(unat (icbrt_loop (3 * int j - 3) (x - of_nat B) (of_nat (2 * Y + 1)))) ^ 3 \<le> x0
        \<and> x0 < (unat (icbrt_loop (3 * int j - 3) (x - of_nat B) (of_nat (2 * Y + 1))) + 1) ^ 3
        \<and> unat (icbrt_loop (3 * int j - 3) (x - of_nat B) (of_nat (2 * Y + 1))) < 2 ^ 11"
    proof (rule Suc.IH [where k = "Suc k"])
      show "3 * int j - 3 = 3 * int j - 3" ..
      show "j + Suc k = 11" using jk by simp
      show "unat (of_nat (2 * Y + 1) :: 32 word) < 2 ^ Suc k" by (simp only: u1) (use Yk in simp)
      show "unat (x - of_nat B) + unat (of_nat (2 * Y + 1) :: 32 word) ^ 3 * 8 ^ j = x0"
        using True inv1 by (simp only: ux u1 cube)
      show "x0 < (unat (of_nat (2 * Y + 1) :: 32 word) + 1) ^ 3 * 8 ^ j"
        using inv2 by (simp only: u1 cube3)
    qed
    with unf True show ?thesis by simp
  next
    case False
    have "(unat (icbrt_loop (3 * int j - 3) x (of_nat (2 * Y)))) ^ 3 \<le> x0
        \<and> x0 < (unat (icbrt_loop (3 * int j - 3) x (of_nat (2 * Y))) + 1) ^ 3
        \<and> unat (icbrt_loop (3 * int j - 3) x (of_nat (2 * Y))) < 2 ^ 11"
    proof (rule Suc.IH [where k = "Suc k"])
      show "3 * int j - 3 = 3 * int j - 3" ..
      show "j + Suc k = 11" using jk by simp
      show "unat (of_nat (2 * Y) :: 32 word) < 2 ^ Suc k" by (simp only: u0) (use Yk in simp)
      show "unat x + unat (of_nat (2 * Y) :: 32 word) ^ 3 * 8 ^ j = x0"
        using inv1 by (simp only: u0 cube2 X_def)
      show "x0 < (unat (of_nat (2 * Y) :: 32 word) + 1) ^ 3 * 8 ^ j"
        using False inv1 by (simp only: u0 cube)
    qed
    with unf False show ?thesis by simp
  qed
qed

lemma icbrt_loop_top:
  "(unat (icbrt_loop 30 x 0)) ^ 3 \<le> unat x \<and> unat x < (unat (icbrt_loop 30 x 0) + 1) ^ 3
   \<and> unat (icbrt_loop 30 x 0) < 2 ^ 11"
proof (rule icbrt_loop_inv [where j = 11 and k = 0])
  show "(30::int) = 3 * int 11 - 3" by simp
  show "11 + 0 = (11::nat)" by simp
  show "unat (0 :: 32 word) < 2 ^ 0" by simp
  show "unat x + unat (0 :: 32 word) ^ 3 * 8 ^ 11 = unat x" by simp
  have "unat x < 2 ^ 32" using unsigned_less [of x] by simp
  then show "unat x < (unat (0 :: 32 word) + 1) ^ 3 * 8 ^ 11" by simp
qed


lemma sint_small:
  fixes r :: "32 word"
  assumes "unat r < 2 ^ 11"
  shows "sint r = int (unat r)"
proof -
  have "(2::nat) ^ 11 = 2048" by simp
  with assms have "nat (uint r) < 2048" by (simp only: unat_eq_nat_uint)
  then have "uint r < 2147483648" by linarith
  then have "uint r < 2 ^ 31" by simp
  moreover have "- (2 ^ 31) \<le> uint r"
  proof -
    have "- (2 ^ 31) \<le> (0::int)" by simp
    also have "0 \<le> uint r" by simp
    finally show ?thesis .
  qed
  ultimately have "signed_take_bit 31 (uint r) = uint r"
    by (intro signed_take_bit_int_eq_self)
  then have "sint r = uint r" by (simp add: sint_uint)
  then show ?thesis by (simp only: uint_nat)
qed

lemma unat_word_of_int_32:
  assumes "0 \<le> x" and "x < 2 ^ 31"
  shows "unat (word_of_int x :: 32 word) = nat x"
proof -
  have "x mod 2 ^ 32 = x" using assms by simp
  then have "uint (word_of_int x :: 32 word) = x" by (simp add: uint_word_of_int)
  then show ?thesis by (simp add: unat_eq_nat_uint)
qed

lemma icbrt_correct:
  assumes "0 \<le> x" and "x < 2 ^ 31"
  shows "(icbrt x) ^ 3 \<le> x \<and> x < (icbrt x + 1) ^ 3 \<and> 0 \<le> icbrt x"
proof -
  define r where "r = icbrt_loop 30 (word_of_int x) 0"
  define R where "R = unat r"
  have u: "unat (word_of_int x :: 32 word) = nat x" using assms by (rule unat_word_of_int_32)
  have R: "R ^ 3 \<le> nat x" "nat x < (R + 1) ^ 3" "R < 2 ^ 11"
    using icbrt_loop_top [of "word_of_int x"] unfolding u r_def [symmetric] R_def [symmetric]
    by simp_all
  have i: "icbrt x = int R"
    unfolding icbrt_def r_def [symmetric] R_def using R(3) [unfolded R_def] by (rule sint_small)
  have "int (R ^ 3) \<le> int (nat x)" using R(1) by (simp only: of_nat_le_iff)
  then have a: "(int R) ^ 3 \<le> x" using assms(1) by simp
  have "int (nat x) < int ((R + 1) ^ 3)" using R(2) by (simp only: of_nat_less_iff)
  then have b: "x < (int R + 1) ^ 3" using assms(1) by (simp add: add.commute)
  from a b show ?thesis by (simp add: i)
qed

text \<open>
  C5. For every integer \<open>x\<close> with \<open>0 \<le> x < 2^31\<close>, \<open>y = icbrt(x)\<close> satisfies
  \<open>y^3 \<le> x < (y+1)^3\<close>; and \<open>icbrt(0) = 0\<close>, \<open>icbrt(7) = 1\<close>, \<open>icbrt(8) = 2\<close>,
  \<open>icbrt(26) = 2\<close>, \<open>icbrt(27) = 3\<close>.
\<close>

theorem icbrt_exact:
  "(0 \<le> x \<and> x < 2 ^ 31 \<longrightarrow> (icbrt x) ^ 3 \<le> x \<and> x < (icbrt x + 1) ^ 3)
   \<and> icbrt 0 = 0 \<and> icbrt 7 = 1 \<and> icbrt 8 = 2 \<and> icbrt 26 = 2 \<and> icbrt 27 = 3"
proof -
  have ex: "icbrt 0 = 0" "icbrt 7 = 1" "icbrt 8 = 2" "icbrt 26 = 2" "icbrt 27 = 3"
    by code_simp+
  with icbrt_correct [of x] show ?thesis by blast
qed

theorem icbrt_exact_witness:
  "(0::int) \<le> 1000 \<and> (1000::int) < 2 ^ 31 \<and> (icbrt 1000) ^ 3 \<le> 1000 \<and> 1000 < (icbrt 1000 + 1) ^ 3"
  using icbrt_exact [of 1000] by simp

subsection \<open>Ordered floats: order\<close>

text \<open>
  The value function on some known patterns: \<open>1.0\<close>, \<open>2.0\<close>, \<open>0.5\<close>, \<open>-3.0\<close>, the
  smallest subnormal, the smallest normal, the largest finite float and \<open>-0.0\<close>.
\<close>

lemma float_val_examples:
  "float_val 0x3F800000 = 2 ^ 149"
  "float_val 0x40000000 = 2 ^ 150"
  "float_val 0x3F000000 = 2 ^ 148"
  "float_val 0xC0400000 = - 3 * 2 ^ 149"
  "float_val 0x00000001 = 1"
  "float_val 0x00800000 = 2 ^ 23"
  "float_val 0x7F7FFFFF = (2 ^ 24 - 1) * 2 ^ 253"
  "float_val 0x80000000 = 0"
  by (simp_all add: float_val_def float_mag_def float_exp_def float_frac_def float_sign_def)

lemma float_exp_nat: "float_exp x = unat x div 2 ^ 23 mod 2 ^ 8"
  unfolding float_exp_def
  by (simp only: unsigned_take_bit_eq unat_drop_bit_eq) (simp only: take_bit_eq_mod drop_bit_eq_div)

lemma float_frac_nat: "float_frac x = unat x mod 2 ^ 23"
  unfolding float_frac_def
  by (simp only: unsigned_take_bit_eq) (simp only: take_bit_eq_mod)

lemma float_sign_nat: "float_sign x = (2 ^ 31 \<le> unat x)"
proof -
  have "bit x 31 = bit (unat x) 31"
    by (simp add: bit_unsigned_iff)
  also have "\<dots> = odd (unat x div 2 ^ 31)"
    by (rule bit_iff_odd)
  also have "\<dots> = (2 ^ 31 \<le> unat x)"
  proof -
    have "unat x < 2 ^ 32" using unsigned_less [of x] by simp
    then have "unat x div 2 ^ 31 < 2" by (simp add: less_mult_imp_div_less) 
    then have "unat x div 2 ^ 31 = 0 \<or> unat x div 2 ^ 31 = 1" by linarith
    moreover have "(unat x div 2 ^ 31 = 0) = (unat x < 2 ^ 31)"
      by (simp add: div_eq_0_iff)
    ultimately show ?thesis by auto
  qed
  finally show ?thesis by (simp only: float_sign_def)
qed

lemma unat_not_32: "unat (NOT u :: 32 word) = 2 ^ 32 - 1 - unat u"
proof -
  have "NOT u = - 1 - u" by (simp add: not_eq_complement)
  moreover have "u \<le> - 1" by simp
  then have "unat (- 1 - u) = unat (- 1 :: 32 word) - unat u" by (rule unat_sub)
  moreover have "unat (- 1 :: 32 word) = 2 ^ 32 - 1"
    by (simp only: unsigned_minus_1_eq_mask mask_eq_exp_minus_1) simp
  ultimately show ?thesis by (simp only:)
qed

lemma unat_flip_sign:
  fixes u :: "32 word"
  assumes "\<not> bit u 31"
  shows "unat (u XOR 0x80000000) = unat u + 2 ^ 31"
proof -
  have "u AND 0x80000000 = 0"
  proof (rule bit_word_eqI)
    fix n
    show "bit (u AND 0x80000000) n = bit (0 :: 32 word) n"
      using assms by (cases "n = 31") (simp_all add: bit_and_iff bit_sign_int)
  qed
  then have "u XOR 0x80000000 = u + 0x80000000"
    by (simp only: disjunctive_add_eq_xor)
  moreover have "unat u < 2 ^ 31"
    using assms float_sign_nat [of u] by (simp add: float_sign_def)
  then have "unat u + unat (0x80000000 :: 32 word) < 2 ^ LENGTH(32)" by simp
  then have "unat (u + 0x80000000) = unat u + unat (0x80000000 :: 32 word)"
    by (simp only: unat_add_lem)
  ultimately show ?thesis by simp
qed

lemma unat_float_to_ordered:
  "unat (float_to_ordered u) =
     (if float_sign u then 2 ^ 32 - 1 - unat u else unat u + 2 ^ 31)"
  by (simp add: float_to_ordered_cases float_sign_def unat_not_32 unat_flip_sign)


lemma magn_mono:
  fixes e f e' f' :: nat
  assumes f: "f < 2 ^ 23" and f': "f' < 2 ^ 23"
    and lt: "2 ^ 23 * e + f < 2 ^ 23 * e' + f'"
  shows "(if e = 0 then f else (2 ^ 23 + f) * 2 ^ (e - 1))
         < (if e' = 0 then f' else (2 ^ 23 + f') * 2 ^ (e' - 1))"
proof -
  have le: "e \<le> e'" using f f' lt by simp
  show ?thesis
  proof (cases "e = e'")
    case True
    with lt have ff: "f < f'" by simp
    show ?thesis
    proof (cases "e = 0")
      case True
      with \<open>e = e'\<close> ff show ?thesis by simp
    next
      case False
      have "(2 ^ 23 + f) * 2 ^ (e - 1) < (2 ^ 23 + f') * 2 ^ (e - 1)"
        by (rule mult_less_mono1) (use ff in simp_all)
      with False \<open>e = e'\<close> show ?thesis by simp
    qed
  next
    case False
    with le have ee: "e < e'" by simp
    then have e'0: "e' \<noteq> 0" by simp
    have up: "(if e = 0 then f else (2 ^ 23 + f) * 2 ^ (e - 1)) < 2 ^ (23 + e)"
    proof (cases e)
      case 0
      with f show ?thesis by simp
    next
      case (Suc n)
      have "(2 ^ 23 + f) * 2 ^ n < (2 ^ 23 + 2 ^ 23) * 2 ^ n"
        by (rule mult_less_mono1) (use f in simp_all)
      also have "\<dots> = 2 ^ (23 + Suc n)" by (simp add: power_add)
      finally show ?thesis using Suc by simp
    qed
    have "(2::nat) ^ (23 + e) \<le> 2 ^ (22 + e')"
      by (rule power_increasing) (use ee in simp_all)
    also have "\<dots> = 2 ^ 23 * 2 ^ (e' - 1)"
    proof -
      have "22 + e' = 23 + (e' - 1)" using e'0 by simp
      then show ?thesis by (simp only: power_add)
    qed
    also have "\<dots> \<le> (2 ^ 23 + f') * 2 ^ (e' - 1)"
      by (rule mult_le_mono1) simp
    finally have "2 ^ (23 + e) \<le> (if e' = 0 then f' else (2 ^ 23 + f') * 2 ^ (e' - 1))"
      using e'0 by simp
    with up show ?thesis by simp
  qed
qed

lemma float_low_split: "float_low x = 2 ^ 23 * float_exp x + float_frac x"
proof -
  have "unat x mod (2 ^ 23 * 2 ^ 8) = 2 ^ 23 * (unat x div 2 ^ 23 mod 2 ^ 8) + unat x mod 2 ^ 23"
    by (rule mod_mult2_eq)
  then show ?thesis by (simp add: float_low_def float_exp_nat float_frac_nat)
qed

lemma float_frac_less: "float_frac x < 2 ^ 23"
  by (simp add: float_frac_nat)

lemma float_mag_mono:
  assumes "float_low a < float_low b"
  shows "float_mag a < float_mag b"
  unfolding float_mag_def
  by (rule magn_mono) (use assms in \<open>simp_all only: float_frac_less float_low_split\<close>)

lemma float_fields_eq:
  assumes "float_low a = float_low b"
  shows "float_mag a = float_mag b"
proof -
  have "2 ^ 23 * float_exp a + float_frac a = 2 ^ 23 * float_exp b + float_frac b"
    using assms by (simp only: float_low_split)
  moreover have "float_frac a < 2 ^ 23" "float_frac b < 2 ^ 23" by (rule float_frac_less)+
  ultimately have e: "float_exp a = float_exp b" by simp
  with assms have "float_frac a = float_frac b" by (simp add: float_low_split)
  with e show ?thesis by (simp add: float_mag_def)
qed

lemma float_mag_less_iff: "(float_mag a < float_mag b) = (float_low a < float_low b)"
  using float_mag_mono [of a b] float_mag_mono [of b a] float_fields_eq [of a b]
  by (cases "float_low a" "float_low b" rule: linorder_cases) auto

lemma float_mag_zero_iff: "(float_mag a = 0) = (float_low a = 0)"
proof -
  have z: "float_low 0 = 0" "float_mag 0 = 0"
    by (simp_all add: float_low_def float_mag_def float_exp_def float_frac_def)
  show ?thesis
    using float_mag_less_iff [of 0 a] unfolding z by auto
qed

lemma unat_sign_low:
  "unat x = (if float_sign x then 2 ^ 31 + float_low x else float_low x)"
proof -
  have "unat x < 2 ^ 32" using unsigned_less [of x] by simp
  then show ?thesis
    unfolding float_sign_nat float_low_def
    by (auto simp: mod_if not_le)
qed

lemma float_low_less: "float_low x < 2 ^ 31"
  by (simp add: float_low_def)

lemma unat_key:
  "unat (float_to_ordered x) =
     (if float_sign x then 2 ^ 31 - 1 - float_low x else 2 ^ 31 + float_low x)"
  by (simp add: unat_float_to_ordered unat_sign_low [of x])

lemma minus_zero_iff: "(x = 0x80000000) = (float_sign x \<and> float_low x = 0)"
proof -
  have "(x = 0x80000000) = (unat x = unat (0x80000000 :: 32 word))"
    by (simp only: word_unat_eq_iff)
  also have "\<dots> = (float_sign x \<and> float_low x = 0)"
    using float_low_less [of x] by (simp add: unat_sign_low [of x])
  finally show ?thesis .
qed

lemma plus_zero_iff: "(x = 0) = (\<not> float_sign x \<and> float_low x = 0)"
proof -
  have "(x = 0) = (unat x = unat (0 :: 32 word))"
    by (simp only: word_unat_eq_iff)
  also have "\<dots> = (\<not> float_sign x \<and> float_low x = 0)"
    by (simp add: unat_sign_low [of x])
  finally show ?thesis .
qed

lemma key_less_iff:
  "(float_to_ordered a < float_to_ordered b) =
     (float_val a < float_val b \<or> (a = 0x80000000 \<and> b = 0))"
proof -
  have la: "float_low a < 2 ^ 31" and lb: "float_low b < 2 ^ 31" by (rule float_low_less)+
  note m = float_mag_less_iff [of a b] float_mag_less_iff [of b a]
    float_mag_zero_iff [of a] float_mag_zero_iff [of b]
  show ?thesis
  proof (cases "float_sign a"; cases "float_sign b")
    assume s: "float_sign a" "float_sign b"
    then show ?thesis
      using la lb m by (auto simp: word_less_nat_alt unat_key float_val_def plus_zero_iff)
  next
    assume s: "float_sign a" "\<not> float_sign b"
    then show ?thesis
      using la lb m
      by (auto simp: word_less_nat_alt unat_key float_val_def plus_zero_iff minus_zero_iff)
  next
    assume s: "\<not> float_sign a" "float_sign b"
    then show ?thesis
      using la lb m
      by (auto simp: word_less_nat_alt unat_key float_val_def plus_zero_iff minus_zero_iff)
  next
    assume s: "\<not> float_sign a" "\<not> float_sign b"
    then show ?thesis
      using la lb m
      by (auto simp: word_less_nat_alt unat_key float_val_def minus_zero_iff)
  qed
qed

text \<open>
  C4, as the code has it. The claim that \<open>a < b\<close> holds if and only if
  \<open>float_to_ordered(a) < float_to_ordered(b)\<close> fails from right to left at the two
  zeros: \<open>-0.0\<close> (\<open>0x80000000\<close>) and \<open>+0.0\<close> (\<open>0x00000000\<close>) are finite and
  \<open>-0.0 < +0.0\<close> is false, but the key of \<open>-0.0\<close>, \<open>0x7FFFFFFF\<close>, is below the key
  of \<open>+0.0\<close>, \<open>0x80000000\<close>.
\<close>

theorem ordered_zeros_counterexample:
  "float_finite 0x80000000 \<and> float_finite 0
   \<and> \<not> float_lt 0x80000000 0
   \<and> float_to_ordered 0x80000000 < float_to_ordered 0"
  by (simp add: float_finite_def float_lt_def float_val_def float_mag_def float_exp_def
      float_frac_def float_to_ordered_def)

text \<open>
  C4, amended. For all finite floats \<open>a\<close> and \<open>b\<close>, \<open>a < b\<close> implies
  \<open>float_to_ordered(a) < float_to_ordered(b)\<close> under unsigned comparison; and
  \<open>float_to_ordered(a) < float_to_ordered(b)\<close> holds exactly when \<open>a < b\<close> or \<open>a\<close> is
  \<open>-0.0\<close> and \<open>b\<close> is \<open>+0.0\<close>.
\<close>

theorem float_to_ordered_order:
  assumes "float_finite a" and "float_finite b"
  shows "(float_lt a b \<longrightarrow> float_to_ordered a < float_to_ordered b)
         \<and> (float_to_ordered a < float_to_ordered b)
             = (float_lt a b \<or> (a = 0x80000000 \<and> b = 0))"
proof -
  have "float_lt a b = (float_val a < float_val b)"
    using assms by (simp add: float_lt_def float_is_nan_def float_finite_def)
  then show ?thesis by (simp add: key_less_iff)
qed

theorem float_to_ordered_order_witness:
  "float_finite 0xC0000000 \<and> float_finite 0x3F800000
   \<and> float_lt 0xC0000000 0x3F800000
   \<and> float_to_ordered 0xC0000000 < float_to_ordered 0x3F800000"
proof -
  have h1: "float_finite 0xC0000000" and h2: "float_finite 0x3F800000"
    by (simp_all add: float_finite_def float_exp_def)
  have lt: "float_lt 0xC0000000 0x3F800000"
    by (simp add: float_lt_def float_is_nan_def float_val_def float_mag_def float_exp_def
        float_frac_def float_sign_def)
  show ?thesis
    using h1 h2 lt float_to_ordered_order [OF h1 h2] by simp
qed

end
